theory Spec2Isabelle
  imports Main
begin

section \<open>The Toy lexer of \<open>Ch1/include/toy/Lexer.h\<close>\<close>

subsection \<open>Tokens, locations and values\<close>

text \<open>
  \<open>enum Token : int\<close>. The lexer stores every character it reads in a \<open>Token\<close>
  variable and returns unknown characters ``as their ascii value'', so a token is any
  \<open>int\<close>; the enumerators are the named values below.
\<close>

type_synonym Token = int

abbreviation tok_semicolon :: Token where "tok_semicolon \<equiv> of_char CHR '';''"
abbreviation tok_parenthese_open :: Token where "tok_parenthese_open \<equiv> of_char CHR ''(''"
abbreviation tok_parenthese_close :: Token where "tok_parenthese_close \<equiv> of_char CHR '')''"
abbreviation tok_bracket_open :: Token where "tok_bracket_open \<equiv> of_char CHR ''{''"
abbreviation tok_bracket_close :: Token where "tok_bracket_close \<equiv> of_char CHR ''}''"
abbreviation tok_sbracket_open :: Token where "tok_sbracket_open \<equiv> of_char CHR ''[''"
abbreviation tok_sbracket_close :: Token where "tok_sbracket_close \<equiv> of_char CHR '']''"
abbreviation tok_eof :: Token where "tok_eof \<equiv> - 1"
abbreviation tok_return :: Token where "tok_return \<equiv> - 2"
abbreviation tok_var :: Token where "tok_var \<equiv> - 3"
abbreviation tok_def :: Token where "tok_def \<equiv> - 4"
abbreviation tok_identifier :: Token where "tok_identifier \<equiv> - 5"
abbreviation tok_number :: Token where "tok_number \<equiv> - 6"

text \<open>The macro \<open>EOF\<close> of \<open><cstdio>\<close>; its value is \<open>-1\<close> in the C libraries in use.\<close>

abbreviation EOF :: int where "EOF \<equiv> - 1"

text \<open>
  \<open>struct Location\<close>; the member \<open>file\<close> (a keyword here) is \<open>file'\<close>, the
  shared string kept by value.
\<close>

record Location =
  file' :: string
  line :: int
  col :: int

text \<open>
  A \<open>double\<close> is only ever initialised to \<open>0\<close> or assigned the result of the C
  library's \<open>strtod\<close>. The value is kept symbolic: \<open>Strtod s\<close> stands for
  \<open>strtod(s, nullptr)\<close>.
\<close>

datatype double = Double_zero | Strtod string

text \<open>
  The classification functions of \<open><cctype>\<close> in the "C" locale, on the \<open>int\<close>
  they receive.
\<close>

definition isspace :: "int \<Rightarrow> bool" where
  "isspace c \<longleftrightarrow> c = 32 \<or> (9 \<le> c \<and> c \<le> 13)"

definition isalpha :: "int \<Rightarrow> bool" where
  "isalpha c \<longleftrightarrow> (65 \<le> c \<and> c \<le> 90) \<or> (97 \<le> c \<and> c \<le> 122)"

definition isdigit :: "int \<Rightarrow> bool" where
  "isdigit c \<longleftrightarrow> 48 \<le> c \<and> c \<le> 57"

definition isalnum :: "int \<Rightarrow> bool" where
  "isalnum c \<longleftrightarrow> isalpha c \<or> isdigit c"

text \<open>\<open>std::to_string(int)\<close>: the decimal digits, with a minus sign when negative.\<close>

fun digits :: "nat \<Rightarrow> string" where
  "digits n = (if n < 10 then [char_of (48 + n)]
               else digits (n div 10) @ [char_of (48 + n mod 10)])"

declare digits.simps [simp del]

definition to_string :: "int \<Rightarrow> string" where
  "to_string i = (if i < 0 then CHR ''-'' # digits (nat (- i)) else digits (nat i))"

subsection \<open>The lexer state\<close>

text \<open>
  The data members of \<open>class Lexer\<close>, and of \<open>class LexerBuffer\<close>, which adds the
  memory it reads: \<open>current\<close> holds the bytes at the addresses \<open>current\<close> to \<open>end\<close>
  (both included, as \<open>readNextLine\<close> reads \<open>*current\<close> while \<open>current <= end\<close>).
  The counters are \<open>int\<close>s of the source taken unbounded: an overflow needs more
  than \<open>2^31\<close> characters of input.
\<close>

record Lexer =
  curTok :: Token
  lastLocation :: Location
  identifierStr :: string
  numVal :: double
  last_char :: Token
  curLineNum :: int
  curCol :: int
  curLineBuffer :: string

record LexerBuffer = Lexer +
  current :: string

text \<open>
  The constructors with the default member initialisers. \<open>mem\<close> is the memory from
  \<open>begin\<close> to \<open>end\<close>; for a text \<open>s\<close> held in a NUL-terminated buffer whose
  \<open>end\<close> points at the terminator it is \<open>s @ [CHR 0x00]\<close>.
\<close>

definition new_LexerBuffer :: "string \<Rightarrow> string \<Rightarrow> LexerBuffer" where
  "new_LexerBuffer mem filename =
     \<lparr> curTok = tok_eof,
       lastLocation = \<lparr> file' = filename, line = 0, col = 0 \<rparr>,
       identifierStr = [],
       numVal = Double_zero,
       last_char = of_char CHR '' '',
       curLineNum = 0,
       curCol = 0,
       curLineBuffer = [CHR 0x0A],
       current = mem \<rparr>"

subsection \<open>Reading characters\<close>

text \<open>
  \<open>LexerBuffer::readNextLine\<close>: advance \<open>current\<close> over the bytes that are neither
  NUL nor a newline, then over the newline if there is one; the result is the bytes
  passed over.
\<close>

definition line_split :: "string \<Rightarrow> string \<times> string" where
  "line_split begin =
     (let body = takeWhile (\<lambda>c. c \<noteq> CHR 0x00 \<and> c \<noteq> CHR 0x0A) begin;
          rest = dropWhile (\<lambda>c. c \<noteq> CHR 0x00 \<and> c \<noteq> CHR 0x0A) begin
      in (case rest of
            [] \<Rightarrow> (body, rest)
          | c # cs \<Rightarrow> if c \<noteq> CHR 0x00 then (body @ [c], cs) else (body, rest)))"

definition readNextLine :: "LexerBuffer \<Rightarrow> string \<times> LexerBuffer" where
  "readNextLine lx =
     (let (result, rest) = line_split (current lx) in (result, lx\<lparr>current := rest\<rparr>))"

text \<open>
  \<open>Lexer::getNextChar\<close>. The \<open>char\<close> taken from the buffer is returned as an
  \<open>int\<close>; bytes are read as \<open>0..255\<close> (above 127 the source's value depends on
  the signedness of \<open>char\<close>, and its \<open>isspace\<close> is undefined on a negative one).
\<close>

definition getNextChar :: "LexerBuffer \<Rightarrow> int \<times> LexerBuffer" where
  "getNextChar lx =
     (if curLineBuffer lx = [] then (EOF, lx)
      else
        let lx1 = lx\<lparr>curCol := curCol lx + 1\<rparr>;
            next_char = hd (curLineBuffer lx1);
            lx2 = lx1\<lparr>curLineBuffer := tl (curLineBuffer lx1)\<rparr>;
            lx3 = (if curLineBuffer lx2 = []
                   then (let (l, lx') = readNextLine lx2 in lx'\<lparr>curLineBuffer := l\<rparr>)
                   else lx2);
            lx4 = (if next_char = CHR 0x0A
                   then lx3\<lparr>curLineNum := curLineNum lx3 + 1, curCol := 0\<rparr>
                   else lx3)
        in (of_char next_char, lx4))"

text \<open>The statement \<open>last_char = Token(getNextChar())\<close>.\<close>

definition read_char :: "LexerBuffer \<Rightarrow> LexerBuffer" where
  "read_char lx = (let (c, lx') = getNextChar lx in lx'\<lparr>last_char := c\<rparr>)"

text \<open>The number of bytes not yet consumed; it bounds every loop of the lexer.\<close>

definition remaining :: "LexerBuffer \<Rightarrow> nat" where
  "remaining lx = length (curLineBuffer lx) + length (current lx)"

lemma line_split_length:
  "length (fst (line_split s)) + length (snd (line_split s)) = length s"
proof -
  let ?p = "\<lambda>c. c \<noteq> CHR 0x00 \<and> c \<noteq> CHR 0x0A"
  have "length (takeWhile ?p s) + length (dropWhile ?p s) = length s"
    by (metis length_append takeWhile_dropWhile_id)
  then show ?thesis
    by (auto simp: line_split_def Let_def split: list.splits)
qed

lemma of_char_int_bounds: "0 \<le> (of_char c :: int)" "(of_char c :: int) < 256"
proof -
  have "(of_char c :: int) = int (of_char c)"
    by (simp add: of_nat_of_char)
  then show "0 \<le> (of_char c :: int)" "(of_char c :: int) < 256"
    using nat_of_char_less_256 [of c] by simp_all
qed

lemma of_char_codes [simp]:
  "(of_char d :: int) = 10 \<longleftrightarrow> d = CHR 0x0A"
  "(of_char d :: int) = 13 \<longleftrightarrow> d = CHR 0x0D"
  "(of_char d :: int) = 35 \<longleftrightarrow> d = CHR ''#''"
  "(of_char d :: int) = 46 \<longleftrightarrow> d = CHR ''.''"
  "(of_char d :: int) = 95 \<longleftrightarrow> d = CHR ''_''"
proof -
  have "(10::int) = of_char (CHR 0x0A)" "(13::int) = of_char (CHR 0x0D)"
    "(35::int) = of_char (CHR ''#'')" "(46::int) = of_char (CHR ''.'')"
    "(95::int) = of_char (CHR ''_'')"
    by simp_all
  then show "(of_char d :: int) = 10 \<longleftrightarrow> d = CHR 0x0A"
    "(of_char d :: int) = 13 \<longleftrightarrow> d = CHR 0x0D"
    "(of_char d :: int) = 35 \<longleftrightarrow> d = CHR ''#''"
    "(of_char d :: int) = 46 \<longleftrightarrow> d = CHR ''.''"
    "(of_char d :: int) = 95 \<longleftrightarrow> d = CHR ''_''"
    by (simp_all only: of_char_eq_iff)
qed

lemma of_char_not_EOF [simp]: "(of_char d :: int) \<noteq> - 1"
  using of_char_int_bounds(1) [of d] by simp

lemma getNextChar_Nil: "curLineBuffer lx = [] \<Longrightarrow> getNextChar lx = (EOF, lx)"
  by (simp add: getNextChar_def)

lemma getNextChar_Cons:
  "curLineBuffer lx = c # b \<Longrightarrow>
   getNextChar lx =
     (of_char c,
      lx\<lparr>curCol := (if c = CHR 0x0A then 0 else curCol lx + 1),
         curLineNum := (if c = CHR 0x0A then curLineNum lx + 1 else curLineNum lx),
         curLineBuffer := (if b = [] then fst (line_split (current lx)) else b),
         current := (if b = [] then snd (line_split (current lx)) else current lx)\<rparr>)"
  by (simp add: getNextChar_def readNextLine_def Let_def split_beta)

lemma getNextChar_remaining:
  assumes "curLineBuffer lx \<noteq> []"
  shows "Suc (remaining (snd (getNextChar lx))) = remaining lx"
proof -
  from assms obtain c b where cb: "curLineBuffer lx = c # b"
    by (cases "curLineBuffer lx") auto
  show ?thesis
    using line_split_length [of "current lx"]
    by (simp add: getNextChar_Cons [OF cb] cb remaining_def)
qed

lemma read_char_remaining_le: "remaining (read_char lx) \<le> remaining lx"
proof (cases "curLineBuffer lx = []")
  case True
  then show ?thesis by (simp add: read_char_def getNextChar_Nil remaining_def)
next
  case False
  from getNextChar_remaining [OF this] show ?thesis
    by (cases "getNextChar lx") (simp add: read_char_def remaining_def)
qed

lemma read_char_remaining_less:
  assumes "last_char (read_char lx) \<noteq> EOF"
  shows "remaining (read_char lx) < remaining lx"
proof (cases "curLineBuffer lx = []")
  case True
  with assms show ?thesis by (simp add: read_char_def getNextChar_Nil)
next
  case False
  from getNextChar_remaining [OF this] show ?thesis
    by (cases "getNextChar lx") (simp add: read_char_def remaining_def)
qed

subsection \<open>The loops of \<open>getTok\<close>\<close>

text \<open>\<open>while (isspace(last_char)) last_char = Token(getNextChar());\<close>\<close>

function skip_whitespace :: "LexerBuffer \<Rightarrow> LexerBuffer" where
  "skip_whitespace lx =
     (if isspace (last_char lx) then skip_whitespace (read_char lx) else lx)"
  by pat_completeness auto

lemma isspace_not_EOF: "isspace c \<Longrightarrow> c \<noteq> EOF"
  by (auto simp: isspace_def)

lemma read_char_Nil: "curLineBuffer lx = [] \<Longrightarrow> read_char lx = lx\<lparr>last_char := EOF\<rparr>"
  by (simp add: read_char_def getNextChar_Nil)

lemma read_char_measure:
  assumes "last_char lx \<noteq> EOF"
  shows "2 * remaining (read_char lx) + (if last_char (read_char lx) = EOF then 0 else 1)
           < 2 * remaining lx + (if last_char lx = EOF then 0 else 1)"
proof (cases "last_char (read_char lx) = EOF")
  case True
  with assms read_char_remaining_le [of lx] show ?thesis by simp
next
  case False
  with assms read_char_remaining_less [of lx] show ?thesis by simp
qed

termination skip_whitespace
  by (relation "measure (\<lambda>lx. 2 * remaining lx + (if last_char lx = EOF then 0 else 1))")
     (use read_char_measure isspace_not_EOF in auto)

declare skip_whitespace.simps [simp del]

text \<open>
  \<open>while (isalnum((last_char = Token(getNextChar()))) || last_char == '_')
     identifierStr += (char) last_char;\<close>
\<close>

function identifier_loop :: "LexerBuffer \<Rightarrow> LexerBuffer" where
  "identifier_loop lx =
     (let lx' = read_char lx
      in if isalnum (last_char lx') \<or> last_char lx' = of_char CHR ''_''
         then identifier_loop (lx'\<lparr>identifierStr := identifierStr lx' @ [char_of (last_char lx')]\<rparr>)
         else lx')"
  by pat_completeness auto

lemma isalnum_not_EOF: "isalnum c \<Longrightarrow> c \<noteq> EOF"
  by (auto simp: isalnum_def isalpha_def isdigit_def)

termination identifier_loop
  by (relation "measure remaining")
     (use read_char_remaining_less isalnum_not_EOF in \<open>auto simp: remaining_def\<close>)

declare identifier_loop.simps [simp del]

text \<open>
  \<open>do { numStr += std::to_string(last_char); last_char = Token(getNextChar()); }
     while (isdigit(last_char) || last_char == '.');\<close>
  The operand of \<open>std::to_string\<close> is the \<open>Token\<close> \<open>last_char\<close>, an enumeration
  with underlying type \<open>int\<close>, so the overload chosen is \<open>to_string(int)\<close>.
\<close>

function number_loop :: "string \<Rightarrow> LexerBuffer \<Rightarrow> string \<times> LexerBuffer" where
  "number_loop numStr lx =
     (let numStr' = numStr @ to_string (last_char lx);
          lx' = read_char lx
      in if isdigit (last_char lx') \<or> last_char lx' = of_char CHR ''.''
         then number_loop numStr' lx'
         else (numStr', lx'))"
  by pat_completeness auto

lemma isdigit_not_EOF: "isdigit c \<Longrightarrow> c \<noteq> EOF"
  by (auto simp: isdigit_def)

termination number_loop
  by (relation "measure (\<lambda>(numStr, lx). remaining lx)")
     (use read_char_remaining_less isdigit_not_EOF in auto)

declare number_loop.simps [simp del]

text \<open>
  \<open>do { last_char = Token(getNextChar()); }
     while (last_char != EOF && last_char != '\n' && last_char != '\r');\<close>
\<close>

function comment_loop :: "LexerBuffer \<Rightarrow> LexerBuffer" where
  "comment_loop lx =
     (let lx' = read_char lx
      in if last_char lx' \<noteq> EOF \<and> last_char lx' \<noteq> of_char (CHR 0x0A)
            \<and> last_char lx' \<noteq> of_char (CHR 0x0D)
         then comment_loop lx'
         else lx')"
  by pat_completeness auto

termination comment_loop
  by (relation "measure remaining") (use read_char_remaining_less in auto)

declare comment_loop.simps [simp del]

subsection \<open>Tokens\<close>

lemma skip_whitespace_remaining: "remaining (skip_whitespace lx) \<le> remaining lx"
proof (induction lx rule: skip_whitespace.induct)
  case (1 lx)
  show ?case
  proof (cases "isspace (last_char lx)")
    case True
    with "1.IH" read_char_remaining_le [of lx] show ?thesis
      by (simp add: skip_whitespace.simps [of lx])
  next
    case False
    then show ?thesis by (simp add: skip_whitespace.simps [of lx])
  qed
qed

lemma comment_loop_remaining:
  "last_char (comment_loop lx) \<noteq> EOF \<Longrightarrow> remaining (comment_loop lx) < remaining lx"
proof (induction lx rule: comment_loop.induct)
  case (1 lx)
  let ?lx' = "read_char lx"
  show ?case
  proof (cases "last_char ?lx' \<noteq> EOF \<and> last_char ?lx' \<noteq> of_char (CHR 0x0A)
                  \<and> last_char ?lx' \<noteq> of_char (CHR 0x0D)")
    case True
    then have eq: "comment_loop lx = comment_loop ?lx'"
      by (simp add: comment_loop.simps [of lx] Let_def)
    with "1.prems" have "last_char (comment_loop ?lx') \<noteq> EOF" by simp
    with "1.IH" True have "remaining (comment_loop ?lx') < remaining ?lx'" by simp
    with read_char_remaining_le [of lx] eq show ?thesis by simp
  next
    case False
    then have eq: "comment_loop lx = ?lx'"
      by (subst comment_loop.simps) (auto simp: Let_def)
    with "1.prems" read_char_remaining_less [of lx] show ?thesis by simp
  qed
qed

text \<open>
  \<open>lastLocation.line = curLineNum; lastLocation.col = curCol;\<close>
\<close>

definition save_location :: "LexerBuffer \<Rightarrow> LexerBuffer" where
  "save_location lx =
     lx\<lparr>lastLocation := (lastLocation lx)\<lparr>line := curLineNum lx, col := curCol lx\<rparr>\<rparr>"

lemma save_location_fields [simp]:
  "last_char (save_location lx) = last_char lx"
  "curLineBuffer (save_location lx) = curLineBuffer lx"
  "current (save_location lx) = current lx"
  "curLineNum (save_location lx) = curLineNum lx"
  "curCol (save_location lx) = curCol lx"
  "identifierStr (save_location lx) = identifierStr lx"
  "numVal (save_location lx) = numVal lx"
  "curTok (save_location lx) = curTok lx"
  "remaining (save_location lx) = remaining lx"
  by (simp_all add: save_location_def remaining_def)

text \<open>
  \<open>Lexer::getTok\<close>. The local variable \<open>numStr\<close> is the accumulator of
  \<open>number_loop\<close>; the call \<open>getTok()\<close> after a comment is the recursion.
\<close>

function getTok :: "LexerBuffer \<Rightarrow> Token \<times> LexerBuffer" where
  "getTok lx0 =
     (let lx1 = skip_whitespace lx0;
          lx2 = save_location lx1
      in if isalpha (last_char lx2) then
           (let lx3 = identifier_loop (lx2\<lparr>identifierStr := [char_of (last_char lx2)]\<rparr>)
            in if identifierStr lx3 = ''return'' then (tok_return, lx3)
               else if identifierStr lx3 = ''def'' then (tok_def, lx3)
               else if identifierStr lx3 = ''var'' then (tok_var, lx3)
               else (tok_identifier, lx3))
         else if isdigit (last_char lx2) \<or> last_char lx2 = of_char CHR ''.'' then
           (let (numStr, lx3) = number_loop [] lx2
            in (tok_number, lx3\<lparr>numVal := Strtod numStr\<rparr>))
         else if last_char lx2 = of_char CHR ''#'' \<and> last_char (comment_loop lx2) \<noteq> EOF then
           getTok (comment_loop lx2)
         else
           (let lx3 = (if last_char lx2 = of_char CHR ''#'' then comment_loop lx2 else lx2)
            in if last_char lx3 = EOF then (tok_eof, lx3)
               else (let thisChar = last_char lx3;
                         lx4 = read_char lx3
                     in (thisChar, lx4))))"
  by pat_completeness auto

termination getTok
proof (relation "measure remaining", goal_cases)
  case 1
  show ?case by simp
next
  case (2 lx0 lx1 lx2)
  then have "last_char (comment_loop lx2) \<noteq> EOF"
    by simp
  then have "remaining (comment_loop lx2) < remaining lx2"
    by (rule comment_loop_remaining)
  with 2 skip_whitespace_remaining [of lx0] show ?case
    by simp
qed

declare getTok.simps [simp del]

text \<open>\<open>Token getNextToken() { return curTok = getTok(); }\<close>\<close>

definition getNextToken :: "LexerBuffer \<Rightarrow> Token \<times> LexerBuffer" where
  "getNextToken lx = (let (t, lx') = getTok lx in (t, lx'\<lparr>curTok := t\<rparr>))"

definition getCurToken :: "LexerBuffer \<Rightarrow> Token" where
  "getCurToken lx = curTok lx"

definition getLastLocation :: "LexerBuffer \<Rightarrow> Location" where
  "getLastLocation lx = lastLocation lx"

definition getLine :: "LexerBuffer \<Rightarrow> int" where
  "getLine lx = curLineNum lx"

definition getCol :: "LexerBuffer \<Rightarrow> int" where
  "getCol lx = curCol lx"

text \<open>
  The member functions guarded by \<open>assert\<close>. A failed assertion ends the process; it
  is the \<open>Inl\<close> outcome, and \<open>Inr\<close> is a normal return. (Compiled with \<open>NDEBUG\<close>
  the assertions are absent.)
\<close>

datatype failure = Assertion_failed string

definition consume :: "Token \<Rightarrow> LexerBuffer \<Rightarrow> failure + LexerBuffer" where
  "consume tok lx =
     (if tok = curTok lx then Inr (snd (getNextToken lx))
      else Inl (Assertion_failed ''consume Token mismatch expectation''))"

definition getId :: "LexerBuffer \<Rightarrow> failure + string" where
  "getId lx =
     (if curTok lx = tok_identifier then Inr (identifierStr lx)
      else Inl (Assertion_failed ''curTok == tok_identifier''))"

definition getValue :: "LexerBuffer \<Rightarrow> failure + double" where
  "getValue lx =
     (if curTok lx = tok_number then Inr (numVal lx)
      else Inl (Assertion_failed ''curTok == tok_number''))"

subsection \<open>The text seen by the lexer\<close>

text \<open>
  \<open>readNextLine\<close> never moves past a NUL byte, so the text of a buffer is what
  precedes its first NUL. The characters still to be read are the rest of the line
  buffer and the text left in memory. \<open>buffer_ok\<close> is the condition of the comment in
  \<open>getNextChar\<close>: ``the current line buffer should not be empty unless it is the end
  of file''.
\<close>

definition text_of :: "string \<Rightarrow> string" where
  "text_of mem = takeWhile (\<lambda>c. c \<noteq> CHR 0x00) mem"

definition unread :: "LexerBuffer \<Rightarrow> string" where
  "unread lx = curLineBuffer lx @ text_of (current lx)"

definition buffer_ok :: "LexerBuffer \<Rightarrow> bool" where
  "buffer_ok lx \<longleftrightarrow> (curLineBuffer lx = [] \<longrightarrow> text_of (current lx) = [])"

text \<open>The lexer after \<open>n\<close> calls of \<open>getNextToken\<close>.\<close>

primrec lex_n :: "nat \<Rightarrow> LexerBuffer \<Rightarrow> LexerBuffer" where
  "lex_n 0 lx = lx"
| "lex_n (Suc n) lx = lex_n n (snd (getNextToken lx))"

lemma line_split_Nil [simp]: "line_split [] = ([], [])"
  by (simp add: line_split_def)

lemma line_split_Cons:
  "line_split (c # cs) =
     (if c = CHR 0x00 then ([], c # cs)
      else if c = CHR 0x0A then ([c], cs)
      else (c # fst (line_split cs), snd (line_split cs)))"
proof (cases "c = CHR 0x00 \<or> c = CHR 0x0A")
  case True
  then show ?thesis by (auto simp: line_split_def)
next
  case False
  then show ?thesis
    by (cases "dropWhile (\<lambda>c. c \<noteq> CHR 0x00 \<and> c \<noteq> CHR 0x0A) cs")
       (simp_all add: line_split_def Let_def del: dropWhile_eq_Nil_conv)
qed

lemma line_split_text:
  "fst (line_split s) @ text_of (snd (line_split s)) = text_of s"
  by (induction s) (simp_all add: line_split_Cons text_of_def)

lemma line_split_empty: "fst (line_split s) = [] \<longleftrightarrow> text_of s = []"
  by (cases s) (simp_all add: line_split_Cons text_of_def)

lemma line_split_text_empty: "text_of s = [] \<Longrightarrow> text_of (snd (line_split s)) = []"
  using line_split_text [of s] by simp

lemma buffer_ok_new: "buffer_ok (new_LexerBuffer mem filename)"
  by (simp add: buffer_ok_def new_LexerBuffer_def)

lemma unread_new: "unread (new_LexerBuffer mem filename) = CHR 0x0A # text_of mem"
  by (simp add: unread_def new_LexerBuffer_def)

lemma read_char_end:
  "buffer_ok lx \<Longrightarrow> unread lx = [] \<Longrightarrow> read_char lx = lx\<lparr>last_char := EOF\<rparr>"
  by (simp add: unread_def read_char_Nil)

lemma read_char_Cons:
  "curLineBuffer lx = c # b \<Longrightarrow>
   read_char lx =
     lx\<lparr>curCol := (if c = CHR 0x0A then 0 else curCol lx + 1),
        curLineNum := (if c = CHR 0x0A then curLineNum lx + 1 else curLineNum lx),
        curLineBuffer := (if b = [] then fst (line_split (current lx)) else b),
        current := (if b = [] then snd (line_split (current lx)) else current lx),
        last_char := of_char c\<rparr>"
  by (simp add: read_char_def getNextChar_Cons)

lemma read_char_step:
  assumes "buffer_ok lx" "unread lx = c # cs"
  shows "last_char (read_char lx) = of_char c"
    and "unread (read_char lx) = cs"
    and "buffer_ok (read_char lx)"
    and "curLineNum (read_char lx) = (if c = CHR 0x0A then curLineNum lx + 1 else curLineNum lx)"
    and "curCol (read_char lx) = (if c = CHR 0x0A then 0 else curCol lx + 1)"
    and "identifierStr (read_char lx) = identifierStr lx"
    and "numVal (read_char lx) = numVal lx"
    and "lastLocation (read_char lx) = lastLocation lx"
    and "curTok (read_char lx) = curTok lx"
proof -
  from assms obtain b where cb: "curLineBuffer lx = c # b"
    by (cases "curLineBuffer lx") (auto simp: unread_def buffer_ok_def)
  with assms(2) have cs: "cs = b @ text_of (current lx)"
    by (simp add: unread_def)
  note rc = read_char_Cons [OF cb]
  show "last_char (read_char lx) = of_char c" by (simp add: rc)
  show "unread (read_char lx) = cs"
    by (simp add: rc unread_def cs line_split_text)
  show "buffer_ok (read_char lx)"
    by (simp add: rc buffer_ok_def line_split_empty line_split_text_empty)
  show "curLineNum (read_char lx) = (if c = CHR 0x0A then curLineNum lx + 1 else curLineNum lx)"
    by (simp add: rc)
  show "curCol (read_char lx) = (if c = CHR 0x0A then 0 else curCol lx + 1)"
    by (simp add: rc)
  show "identifierStr (read_char lx) = identifierStr lx" by (simp add: rc)
  show "numVal (read_char lx) = numVal lx" by (simp add: rc)
  show "lastLocation (read_char lx) = lastLocation lx" by (simp add: rc)
  show "curTok (read_char lx) = curTok lx" by (simp add: rc)
qed


subsection \<open>One step of each loop\<close>

lemma skip_whitespace_space:
  "isspace (last_char lx) \<Longrightarrow> skip_whitespace lx = skip_whitespace (read_char lx)"
  by (subst skip_whitespace.simps) simp

lemma skip_whitespace_nospace: "\<not> isspace (last_char lx) \<Longrightarrow> skip_whitespace lx = lx"
  by (subst skip_whitespace.simps) simp

lemma comment_loop_go:
  "last_char (read_char lx) \<noteq> EOF \<Longrightarrow> last_char (read_char lx) \<noteq> 10 \<Longrightarrow>
   last_char (read_char lx) \<noteq> 13 \<Longrightarrow> comment_loop lx = comment_loop (read_char lx)"
  by (subst comment_loop.simps) (simp add: Let_def)

lemma comment_loop_stop:
  "last_char (read_char lx) = EOF \<or> last_char (read_char lx) = 10 \<or> last_char (read_char lx) = 13
   \<Longrightarrow> comment_loop lx = read_char lx"
  by (subst comment_loop.simps) (auto simp: Let_def)

lemma identifier_loop_go:
  "isalnum (last_char (read_char lx)) \<or> last_char (read_char lx) = 95 \<Longrightarrow>
   identifier_loop lx =
     identifier_loop ((read_char lx)\<lparr>identifierStr :=
        identifierStr (read_char lx) @ [char_of (last_char (read_char lx))]\<rparr>)"
  by (subst identifier_loop.simps) (auto simp: Let_def)

lemma identifier_loop_stop:
  "\<not> isalnum (last_char (read_char lx)) \<Longrightarrow> last_char (read_char lx) \<noteq> 95 \<Longrightarrow>
   identifier_loop lx = read_char lx"
  by (subst identifier_loop.simps) (simp add: Let_def)

lemma number_loop_go:
  "isdigit (last_char (read_char lx)) \<or> last_char (read_char lx) = 46 \<Longrightarrow>
   number_loop numStr lx = number_loop (numStr @ to_string (last_char lx)) (read_char lx)"
  by (subst number_loop.simps) (auto simp: Let_def)

lemma number_loop_stop:
  "\<not> isdigit (last_char (read_char lx)) \<Longrightarrow> last_char (read_char lx) \<noteq> 46 \<Longrightarrow>
   number_loop numStr lx = (numStr @ to_string (last_char lx), read_char lx)"
  by (subst number_loop.simps) (simp add: Let_def)

subsection \<open>The branches of \<open>getTok\<close>\<close>

lemma getTok_space: "isspace (last_char lx) \<Longrightarrow> getTok lx = getTok (read_char lx)"
  by (simp add: getTok.simps [of lx] getTok.simps [of "read_char lx"]
        skip_whitespace_space [of lx])

lemma getTok_EOF: "last_char lx = EOF \<Longrightarrow> getTok lx = (tok_eof, save_location lx)"
  by (simp add: getTok.simps [of lx] skip_whitespace_nospace isspace_def isalpha_def
        isdigit_def Let_def)

lemma getTok_comment:
  "last_char lx = 35 \<Longrightarrow>
   getTok lx =
     (if last_char (comment_loop (save_location lx)) \<noteq> EOF
      then getTok (comment_loop (save_location lx))
      else (tok_eof, comment_loop (save_location lx)))"
  by (simp add: getTok.simps [of lx] skip_whitespace_nospace isspace_def isalpha_def
        isdigit_def Let_def)

lemma isalpha_not_space: "isalpha c \<Longrightarrow> \<not> isspace c"
  by (auto simp: isalpha_def isspace_def)

lemma getTok_alpha:
  "isalpha (last_char lx) \<Longrightarrow>
   getTok lx =
     (let lx3 = identifier_loop ((save_location lx)\<lparr>identifierStr := [char_of (last_char lx)]\<rparr>)
      in (if identifierStr lx3 = ''return'' then tok_return
          else if identifierStr lx3 = ''def'' then tok_def
          else if identifierStr lx3 = ''var'' then tok_var
          else tok_identifier, lx3))"
  by (simp add: getTok.simps [of lx] skip_whitespace_nospace isalpha_not_space Let_def)

subsection \<open>The loops on the unread text\<close>

lemma buffer_ok_fields [simp]:
  "buffer_ok (save_location lx) = buffer_ok lx"
  "buffer_ok (lx\<lparr>identifierStr := i\<rparr>) = buffer_ok lx"
  "buffer_ok (lx\<lparr>last_char := c\<rparr>) = buffer_ok lx"
  "buffer_ok (lx\<lparr>curTok := t\<rparr>) = buffer_ok lx"
  "buffer_ok (lx\<lparr>numVal := v\<rparr>) = buffer_ok lx"
  by (simp_all add: buffer_ok_def)

lemma unread_fields [simp]:
  "unread (save_location lx) = unread lx"
  "unread (lx\<lparr>identifierStr := i\<rparr>) = unread lx"
  "unread (lx\<lparr>last_char := c\<rparr>) = unread lx"
  "unread (lx\<lparr>curTok := t\<rparr>) = unread lx"
  "unread (lx\<lparr>numVal := v\<rparr>) = unread lx"
  by (simp_all add: unread_def)

lemma buffer_ok_read_char: "buffer_ok lx \<Longrightarrow> buffer_ok (read_char lx)"
proof (cases "unread lx")
  case Nil
  assume "buffer_ok lx"
  with Nil show ?thesis by (simp add: read_char_end)
next
  case (Cons c cs)
  assume "buffer_ok lx"
  then show ?thesis using Cons by (rule read_char_step(3))
qed

text \<open>
  The comment loop reads up to and including the first newline or carriage return of
  the unread text, or to its end.
\<close>

lemma comment_loop_unread:
  "buffer_ok lx \<Longrightarrow>
   buffer_ok (comment_loop lx) \<and>
   (case dropWhile (\<lambda>d. d \<noteq> CHR 0x0A \<and> d \<noteq> CHR 0x0D) (unread lx) of
      [] \<Rightarrow> last_char (comment_loop lx) = EOF
    | c # cs \<Rightarrow> last_char (comment_loop lx) = of_char c \<and> unread (comment_loop lx) = cs)"
proof (induction "unread lx" arbitrary: lx)
  case Nil
  then have "read_char lx = lx\<lparr>last_char := EOF\<rparr>"
    by (simp add: read_char_end)
  moreover from this have "comment_loop lx = read_char lx"
    by (simp add: comment_loop_stop)
  ultimately show ?case using Nil by simp
next
  case (Cons c cs)
  note step = read_char_step [OF Cons.prems Cons.hyps(2) [symmetric]]
  show ?case
  proof (cases "c = CHR 0x0A \<or> c = CHR 0x0D")
    case True
    with step(1) have "comment_loop lx = read_char lx"
      by (auto simp: comment_loop_stop)
    with step True Cons.hyps(2) [symmetric] show ?thesis by auto
  next
    case False
    with step(1) have eq: "comment_loop lx = comment_loop (read_char lx)"
      by (simp add: comment_loop_go)
    have d: "dropWhile (\<lambda>d. d \<noteq> CHR 0x0A \<and> d \<noteq> CHR 0x0D) (unread lx)
        = dropWhile (\<lambda>d. d \<noteq> CHR 0x0A \<and> d \<noteq> CHR 0x0D) (unread (read_char lx))"
      using False step(2) Cons.hyps(2) [symmetric] by simp
    from step(2,3) have "buffer_ok (read_char lx)" "cs = unread (read_char lx)"
      by simp_all
    then have "buffer_ok (comment_loop (read_char lx)) \<and>
      (case dropWhile (\<lambda>d. d \<noteq> CHR 0x0A \<and> d \<noteq> CHR 0x0D) (unread (read_char lx)) of
         [] \<Rightarrow> last_char (comment_loop (read_char lx)) = EOF
       | c # cs \<Rightarrow> last_char (comment_loop (read_char lx)) = of_char c
                    \<and> unread (comment_loop (read_char lx)) = cs)"
      by (intro Cons.hyps(1))
    then show ?thesis by (simp only: eq d)
  qed
qed

text \<open>The identifier loop appends the longest run of identifier characters.\<close>

lemma identifier_loop_unread:
  "buffer_ok lx \<Longrightarrow> unread lx = s @ r \<Longrightarrow>
   \<forall>c\<in>set s. isalnum (of_char c) \<or> c = CHR ''_'' \<Longrightarrow>
   r = [] \<or> \<not> (isalnum (of_char (hd r)) \<or> hd r = CHR ''_'') \<Longrightarrow>
   identifierStr (identifier_loop lx) = identifierStr lx @ s"
proof (induction s arbitrary: lx)
  case Nil
  show ?case
  proof (cases r)
    case Nil
    with Nil.prems have "read_char lx = lx\<lparr>last_char := EOF\<rparr>"
      by (simp add: read_char_end)
    moreover from this have "identifier_loop lx = read_char lx"
      by (simp add: identifier_loop_stop isalnum_def isalpha_def isdigit_def)
    ultimately show ?thesis by simp
  next
    case (Cons c cs)
    with Nil.prems have u: "unread lx = c # cs" by simp
    note step = read_char_step [OF Nil.prems(1) u]
    from Nil.prems(4) Cons step(1) have "identifier_loop lx = read_char lx"
      by (simp add: identifier_loop_stop)
    with step(6) show ?thesis by simp
  qed
next
  case (Cons c s)
  from Cons.prems have u: "unread lx = c # (s @ r)" by simp
  note step = read_char_step [OF Cons.prems(1) u]
  let ?lx' = "(read_char lx)\<lparr>identifierStr := identifierStr (read_char lx) @ [c]\<rparr>"
  from Cons.prems(3) step(1) have "identifier_loop lx = identifier_loop ?lx'"
    by (subst identifier_loop_go) auto
  moreover have "identifierStr (identifier_loop ?lx') = identifierStr ?lx' @ s"
    using Cons.prems step(2,3) by (intro Cons.IH) simp_all
  ultimately show ?case using step(6) by simp
qed

subsection \<open>The shapes of input the specification names\<close>

text \<open>
  The character classes of the lexical grammar, as ranges of character codes:
  an identifier is \<open>[A-Za-z][A-Za-z0-9_]*\<close>.
\<close>

definition in_range :: "char \<Rightarrow> char \<Rightarrow> char \<Rightarrow> bool" where
  "in_range lo hi c \<longleftrightarrow> (of_char lo :: nat) \<le> of_char c \<and> (of_char c :: nat) \<le> of_char hi"

definition identifier_start :: "char \<Rightarrow> bool" where
  "identifier_start c \<longleftrightarrow> in_range CHR ''A'' CHR ''Z'' c \<or> in_range CHR ''a'' CHR ''z'' c"

definition identifier_char :: "char \<Rightarrow> bool" where
  "identifier_char c \<longleftrightarrow>
     identifier_start c \<or> in_range CHR ''0'' CHR ''9'' c \<or> c = CHR ''_''"

definition identifier_shaped :: "string \<Rightarrow> bool" where
  "identifier_shaped s \<longleftrightarrow>
     (case s of [] \<Rightarrow> False | c # cs \<Rightarrow> identifier_start c \<and> list_all identifier_char cs)"

text \<open>
  Whitespace is space, tab, newline and carriage return. A line comment is \<open>#\<close>
  and what follows it up to the next newline or carriage return, or to the end of the
  text. \<open>blank\<close> holds of a text made of whitespace and line comments only.
\<close>

definition whitespace :: "char \<Rightarrow> bool" where
  "whitespace c \<longleftrightarrow> c = CHR '' '' \<or> c = CHR 0x09 \<or> c = CHR 0x0A \<or> c = CHR 0x0D"

function blank :: "string \<Rightarrow> bool" where
  "blank [] = True"
| "blank (c # cs) =
     (if whitespace c then blank cs
      else if c = CHR ''#'' then blank (dropWhile (\<lambda>d. d \<noteq> CHR 0x0A \<and> d \<noteq> CHR 0x0D) cs)
      else False)"
  by pat_completeness auto

termination blank
  by (relation "measure length") (auto simp: le_imp_less_Suc length_dropWhile_le)

lemma of_char_int_nat: "(of_char c :: int) = int (of_char c)"
  by (simp add: of_nat_of_char)

lemma identifier_start_isalpha: "identifier_start c \<longleftrightarrow> isalpha (of_char c)"
  by (simp add: identifier_start_def in_range_def isalpha_def of_char_int_nat)

lemma identifier_char_isalnum: "identifier_char c \<longleftrightarrow> isalnum (of_char c) \<or> c = CHR ''_''"
  by (auto simp: identifier_char_def identifier_start_def in_range_def isalnum_def isalpha_def
        isdigit_def of_char_int_nat)

lemma whitespace_isspace: "whitespace c \<Longrightarrow> isspace (of_char c)"
  by (auto simp: whitespace_def isspace_def)

subsection \<open>Skipping whitespace, comments and blank text\<close>

lemma getTok_skip:
  "buffer_ok lx \<Longrightarrow> last_char lx = of_char c0 \<Longrightarrow> c0 # unread lx = ws @ c # rest \<Longrightarrow>
   \<forall>w\<in>set ws. isspace (of_char w) \<Longrightarrow>
   \<exists>lx'. getTok lx = getTok lx' \<and> buffer_ok lx' \<and> last_char lx' = of_char c \<and> unread lx' = rest"
proof (induction ws arbitrary: lx c0)
  case Nil
  then show ?case by auto
next
  case (Cons w ws)
  from Cons.prems(3) have w: "c0 = w" and u: "unread lx = ws @ c # rest" by simp_all
  obtain c1 cs where c1: "ws @ c # rest = c1 # cs"
    by (cases "ws @ c # rest") auto
  note step = read_char_step [OF Cons.prems(1) u [unfolded c1]]
  from Cons.prems(2,4) w have "getTok lx = getTok (read_char lx)"
    by (simp add: getTok_space)
  moreover have "\<exists>lx'. getTok (read_char lx) = getTok lx' \<and> buffer_ok lx'
      \<and> last_char lx' = of_char c \<and> unread lx' = rest"
    using step(1,2,3) c1 Cons.prems(4) by (intro Cons.IH [of "read_char lx" c1]) simp_all
  ultimately show ?case by simp
qed

lemma getTok_blank:
  "buffer_ok lx \<Longrightarrow> last_char lx = of_char c0 \<Longrightarrow> blank (c0 # unread lx) \<Longrightarrow>
   fst (getTok lx) = tok_eof"
proof (induction "length (unread lx)" arbitrary: lx c0 rule: less_induct)
  case less
  show ?case
  proof (cases "whitespace c0")
    case True
    with less.prems(2) have eq: "getTok lx = getTok (read_char lx)"
      by (simp add: getTok_space whitespace_isspace)
    show ?thesis
    proof (cases "unread lx")
      case Nil
      with less.prems(1) have "last_char (read_char lx) = EOF"
        by (simp add: read_char_end)
      then show ?thesis by (simp add: eq getTok_EOF)
    next
      case (Cons c1 cs)
      note step = read_char_step [OF less.prems(1) Cons]
      from less.prems(3) True Cons have "blank (c1 # unread (read_char lx))"
        by (simp add: step(2))
      with step(1,3) have "fst (getTok (read_char lx)) = tok_eof"
        by (intro less.hyps [of "read_char lx" c1]) (simp_all add: step(2) Cons)
      then show ?thesis by (simp add: eq)
    qed
  next
    case False
    with less.prems(3) have hash: "c0 = CHR ''#''"
      and rest: "blank (dropWhile (\<lambda>d. d \<noteq> CHR 0x0A \<and> d \<noteq> CHR 0x0D) (unread lx))"
      by (simp_all split: if_splits)
    let ?lx' = "comment_loop (save_location lx)"
    from less.prems(1) have ok: "buffer_ok (save_location lx)" by simp
    note cl = comment_loop_unread [OF ok]
    from hash less.prems(2) have eq: "getTok lx =
        (if last_char ?lx' \<noteq> EOF then getTok ?lx' else (tok_eof, ?lx'))"
      by (simp add: getTok_comment)
    show ?thesis
    proof (cases "dropWhile (\<lambda>d. d \<noteq> CHR 0x0A \<and> d \<noteq> CHR 0x0D) (unread lx)")
      case Nil
      with cl have "last_char ?lx' = EOF" by simp
      then show ?thesis by (simp add: eq)
    next
      case (Cons c1 cs)
      with cl have l: "last_char ?lx' = of_char c1" and u: "unread ?lx' = cs"
        and ok': "buffer_ok ?lx'"
        by simp_all
      have "length (dropWhile (\<lambda>d. d \<noteq> CHR 0x0A \<and> d \<noteq> CHR 0x0D) (unread lx))
              \<le> length (unread lx)"
        by (rule length_dropWhile_le)
      with Cons have len: "length (unread ?lx') < length (unread lx)"
        by (simp add: u)
      from rest Cons u have "blank (c1 # unread ?lx')" by simp
      with len ok' l have "fst (getTok ?lx') = tok_eof"
        by (intro less.hyps [of ?lx' c1])
      with l show ?thesis by (simp add: eq)
    qed
  qed
qed

subsection \<open>What the loops keep\<close>

lemma read_char_keeps:
  "curLineNum lx \<le> curLineNum (read_char lx) \<and> lastLocation (read_char lx) = lastLocation lx"
  by (cases "curLineBuffer lx") (simp_all add: read_char_Nil read_char_Cons)

lemma skip_whitespace_keeps:
  "curLineNum lx \<le> curLineNum (skip_whitespace lx) \<and>
   lastLocation (skip_whitespace lx) = lastLocation lx"
proof (induction lx rule: skip_whitespace.induct)
  case (1 lx)
  show ?case
  proof (cases "isspace (last_char lx)")
    case True
    with "1.IH" read_char_keeps [of lx] show ?thesis
      by (simp add: skip_whitespace_space)
  next
    case False
    then show ?thesis by (simp add: skip_whitespace_nospace)
  qed
qed

lemma comment_loop_keeps:
  "curLineNum lx \<le> curLineNum (comment_loop lx) \<and>
   lastLocation (comment_loop lx) = lastLocation lx"
proof (induction lx rule: comment_loop.induct)
  case (1 lx)
  show ?case
  proof (cases "last_char (read_char lx) = EOF \<or> last_char (read_char lx) = 10
                  \<or> last_char (read_char lx) = 13")
    case True
    then have "comment_loop lx = read_char lx" by (rule comment_loop_stop)
    with read_char_keeps [of lx] show ?thesis by simp
  next
    case False
    then have "comment_loop lx = comment_loop (read_char lx)"
      by (simp add: comment_loop_go)
    with "1.IH" [OF refl] False read_char_keeps [of lx] show ?thesis by simp
  qed
qed

lemma identifier_loop_keeps:
  "curLineNum lx \<le> curLineNum (identifier_loop lx) \<and>
   lastLocation (identifier_loop lx) = lastLocation lx"
proof (induction lx rule: identifier_loop.induct)
  case (1 lx)
  show ?case
  proof (cases "isalnum (last_char (read_char lx)) \<or> last_char (read_char lx) = 95")
    case True
    with "1.IH" [OF refl] read_char_keeps [of lx] show ?thesis
      by (simp add: identifier_loop_go)
  next
    case False
    then have "identifier_loop lx = read_char lx" by (simp add: identifier_loop_stop)
    with read_char_keeps [of lx] show ?thesis by simp
  qed
qed

lemma number_loop_keeps:
  "curLineNum lx \<le> curLineNum (snd (number_loop numStr lx)) \<and>
   lastLocation (snd (number_loop numStr lx)) = lastLocation lx"
proof (induction numStr lx rule: number_loop.induct)
  case (1 numStr lx)
  show ?case
  proof (cases "isdigit (last_char (read_char lx)) \<or> last_char (read_char lx) = 46")
    case True
    with "1.IH" [OF refl refl] read_char_keeps [of lx] show ?thesis
      by (simp add: number_loop_go)
  next
    case False
    then have "number_loop numStr lx = (numStr @ to_string (last_char lx), read_char lx)"
      by (simp add: number_loop_stop)
    with read_char_keeps [of lx] show ?thesis by simp
  qed
qed

subsection \<open>Tokens, the end of the input and the line counter\<close>

lemma getTok_eof_last_char:
  "fst (getTok lx) = tok_eof \<Longrightarrow> last_char (snd (getTok lx)) = EOF"
proof (induction lx rule: getTok.induct)
  case (1 lx0)
  let ?lx2 = "save_location (skip_whitespace lx0)"
  let ?num = "isdigit (last_char ?lx2) \<or> last_char ?lx2 = 46"
  let ?rec = "last_char ?lx2 = 35 \<and> last_char (comment_loop ?lx2) \<noteq> EOF"
  let ?lx3 = "if last_char ?lx2 = 35 then comment_loop ?lx2 else ?lx2"
  consider (alpha) "isalpha (last_char ?lx2)"
    | (num) "\<not> isalpha (last_char ?lx2)" ?num
    | (rec) "\<not> isalpha (last_char ?lx2)" "\<not> ?num" ?rec
    | (eof) "\<not> isalpha (last_char ?lx2)" "\<not> ?num" "\<not> ?rec" "last_char ?lx3 = EOF"
    | (other) "\<not> isalpha (last_char ?lx2)" "\<not> ?num" "\<not> ?rec" "last_char ?lx3 \<noteq> EOF"
    by blast
  then show ?case
  proof cases
    case alpha
    with "1.prems" show ?thesis
      by (simp add: getTok.simps [of lx0] Let_def split: if_splits)
  next
    case num
    with "1.prems" show ?thesis
      by (simp add: getTok.simps [of lx0] Let_def split_beta)
  next
    case rec
    then have eq: "getTok lx0 = getTok (comment_loop ?lx2)"
      by (simp add: getTok.simps [of lx0] Let_def)
    from rec have "fst (getTok (comment_loop ?lx2)) = tok_eof \<Longrightarrow>
        last_char (snd (getTok (comment_loop ?lx2))) = EOF"
      by (intro "1.IH" [OF refl refl]) simp_all
    with "1.prems" show ?thesis by (simp add: eq)
  next
    case eof
    then have "getTok lx0 = (tok_eof, ?lx3)"
      by (cases "last_char ?lx2 = 35") (simp_all add: getTok.simps [of lx0] Let_def)
    with eof show ?thesis by simp
  next
    case other
    then have "fst (getTok lx0) = last_char ?lx3"
      by (cases "last_char ?lx2 = 35") (simp_all add: getTok.simps [of lx0] Let_def)
    with other "1.prems" show ?thesis by simp
  qed
qed

lemma getTok_keeps:
  "curLineNum lx \<le> line (lastLocation (snd (getTok lx))) \<and>
   curLineNum lx \<le> curLineNum (snd (getTok lx))"
proof (induction lx rule: getTok.induct)
  case (1 lx0)
  let ?lx2 = "save_location (skip_whitespace lx0)"
  let ?num = "isdigit (last_char ?lx2) \<or> last_char ?lx2 = 46"
  let ?rec = "last_char ?lx2 = 35 \<and> last_char (comment_loop ?lx2) \<noteq> EOF"
  let ?lx3 = "if last_char ?lx2 = 35 then comment_loop ?lx2 else ?lx2"
  have s: "curLineNum lx0 \<le> curLineNum ?lx2" "line (lastLocation ?lx2) = curLineNum ?lx2"
    using skip_whitespace_keeps [of lx0] by (simp_all add: save_location_def)
  consider (alpha) "isalpha (last_char ?lx2)"
    | (num) "\<not> isalpha (last_char ?lx2)" ?num
    | (rec) "\<not> isalpha (last_char ?lx2)" "\<not> ?num" ?rec
    | (eof) "\<not> isalpha (last_char ?lx2)" "\<not> ?num" "\<not> ?rec" "last_char ?lx3 = EOF"
    | (other) "\<not> isalpha (last_char ?lx2)" "\<not> ?num" "\<not> ?rec" "last_char ?lx3 \<noteq> EOF"
    by blast
  then show ?case
  proof cases
    case alpha
    let ?lx' = "identifier_loop (?lx2\<lparr>identifierStr := [char_of (last_char ?lx2)]\<rparr>)"
    from alpha have "snd (getTok lx0) = ?lx'"
      by (simp add: getTok.simps [of lx0] Let_def)
    with s identifier_loop_keeps [of "?lx2\<lparr>identifierStr := [char_of (last_char ?lx2)]\<rparr>"]
    show ?thesis by simp
  next
    case num
    then have "snd (getTok lx0) =
        (snd (number_loop [] ?lx2))\<lparr>numVal := Strtod (fst (number_loop [] ?lx2))\<rparr>"
      by (simp add: getTok.simps [of lx0] Let_def split_beta)
    with s number_loop_keeps [of ?lx2 "[]"] show ?thesis by simp
  next
    case rec
    then have eq: "getTok lx0 = getTok (comment_loop ?lx2)"
      by (simp add: getTok.simps [of lx0] Let_def)
    from rec have "curLineNum (comment_loop ?lx2)
          \<le> line (lastLocation (snd (getTok (comment_loop ?lx2)))) \<and>
        curLineNum (comment_loop ?lx2) \<le> curLineNum (snd (getTok (comment_loop ?lx2)))"
      by (intro "1.IH" [OF refl refl]) simp_all
    with s comment_loop_keeps [of ?lx2] show ?thesis by (simp add: eq)
  next
    case eof
    then have "getTok lx0 = (tok_eof, ?lx3)"
      by (cases "last_char ?lx2 = 35") (simp_all add: getTok.simps [of lx0] Let_def)
    with s comment_loop_keeps [of ?lx2] show ?thesis
      by (cases "last_char ?lx2 = 35") simp_all
  next
    case other
    then have "snd (getTok lx0) = read_char ?lx3"
      by (cases "last_char ?lx2 = 35") (simp_all add: getTok.simps [of lx0] Let_def)
    with s comment_loop_keeps [of ?lx2] read_char_keeps [of ?lx3] show ?thesis
      by (cases "last_char ?lx2 = 35") simp_all
  qed
qed

lemma getNextToken_EOF:
  "last_char lx = EOF \<Longrightarrow> getNextToken lx = (tok_eof, (save_location lx)\<lparr>curTok := tok_eof\<rparr>)"
  by (simp add: getNextToken_def getTok_EOF)

lemma getNextToken_eof_last_char:
  "fst (getNextToken lx) = tok_eof \<Longrightarrow> last_char (snd (getNextToken lx)) = EOF"
  using getTok_eof_last_char [of lx] by (simp add: getNextToken_def split_beta)

lemma lex_n_EOF:
  "last_char lx = EOF \<Longrightarrow>
   last_char (lex_n n lx) = EOF \<and> curLineBuffer (lex_n n lx) = curLineBuffer lx \<and>
   current (lex_n n lx) = current lx"
  by (induction n arbitrary: lx) (simp_all add: getNextToken_EOF)

lemma getNextToken_keeps:
  "curLineNum lx \<le> line (lastLocation (snd (getNextToken lx))) \<and>
   curLineNum lx \<le> curLineNum (snd (getNextToken lx))"
  using getTok_keeps [of lx] by (simp add: getNextToken_def split_beta)

lemma lex_n_line: "k \<le> curLineNum lx \<Longrightarrow> k \<le> curLineNum (lex_n n lx)"
proof (induction n arbitrary: lx)
  case 0
  then show ?case by simp
next
  case (Suc n)
  from Suc.prems getNextToken_keeps [of lx] have "k \<le> curLineNum (snd (getNextToken lx))"
    by simp
  then show ?case by (simp add: Suc.IH)
qed


subsection \<open>The buffer invariant holds in every state a lexer reaches\<close>

lemma skip_whitespace_ok: "buffer_ok lx \<Longrightarrow> buffer_ok (skip_whitespace lx)"
proof (induction lx rule: skip_whitespace.induct)
  case (1 lx)
  show ?case
  proof (cases "isspace (last_char lx)")
    case True
    with "1.IH" "1.prems" show ?thesis
      by (simp add: skip_whitespace_space buffer_ok_read_char)
  next
    case False
    with "1.prems" show ?thesis by (simp add: skip_whitespace_nospace)
  qed
qed

lemma identifier_loop_ok: "buffer_ok lx \<Longrightarrow> buffer_ok (identifier_loop lx)"
proof (induction lx rule: identifier_loop.induct)
  case (1 lx)
  show ?case
  proof (cases "isalnum (last_char (read_char lx)) \<or> last_char (read_char lx) = 95")
    case True
    with "1.IH" [OF refl] "1.prems" show ?thesis
      by (simp add: identifier_loop_go buffer_ok_read_char)
  next
    case False
    with "1.prems" show ?thesis
      by (simp add: identifier_loop_stop buffer_ok_read_char)
  qed
qed

lemma number_loop_ok: "buffer_ok lx \<Longrightarrow> buffer_ok (snd (number_loop numStr lx))"
proof (induction numStr lx rule: number_loop.induct)
  case (1 numStr lx)
  show ?case
  proof (cases "isdigit (last_char (read_char lx)) \<or> last_char (read_char lx) = 46")
    case True
    with "1.IH" [OF refl refl] "1.prems" show ?thesis
      by (simp add: number_loop_go buffer_ok_read_char)
  next
    case False
    with "1.prems" show ?thesis
      by (simp add: number_loop_stop buffer_ok_read_char)
  qed
qed

lemma comment_loop_ok: "buffer_ok lx \<Longrightarrow> buffer_ok (comment_loop lx)"
  using comment_loop_unread [of lx] by simp

lemma getTok_ok: "buffer_ok lx \<Longrightarrow> buffer_ok (snd (getTok lx))"
proof (induction lx rule: getTok.induct)
  case (1 lx0)
  let ?lx2 = "save_location (skip_whitespace lx0)"
  let ?num = "isdigit (last_char ?lx2) \<or> last_char ?lx2 = 46"
  let ?rec = "last_char ?lx2 = 35 \<and> last_char (comment_loop ?lx2) \<noteq> EOF"
  let ?lx3 = "if last_char ?lx2 = 35 then comment_loop ?lx2 else ?lx2"
  from "1.prems" have ok2: "buffer_ok ?lx2"
    by (simp add: skip_whitespace_ok)
  then have ok3: "buffer_ok ?lx3"
    by (simp add: comment_loop_ok)
  consider (alpha) "isalpha (last_char ?lx2)"
    | (num) "\<not> isalpha (last_char ?lx2)" ?num
    | (rec) "\<not> isalpha (last_char ?lx2)" "\<not> ?num" ?rec
    | (eof) "\<not> isalpha (last_char ?lx2)" "\<not> ?num" "\<not> ?rec" "last_char ?lx3 = EOF"
    | (other) "\<not> isalpha (last_char ?lx2)" "\<not> ?num" "\<not> ?rec" "last_char ?lx3 \<noteq> EOF"
    by blast
  then show ?case
  proof cases
    case alpha
    let ?lx' = "identifier_loop (?lx2\<lparr>identifierStr := [char_of (last_char ?lx2)]\<rparr>)"
    from alpha have "snd (getTok lx0) = ?lx'"
      by (simp add: getTok.simps [of lx0] Let_def)
    with ok2 show ?thesis by (simp add: identifier_loop_ok)
  next
    case num
    then have "snd (getTok lx0) =
        (snd (number_loop [] ?lx2))\<lparr>numVal := Strtod (fst (number_loop [] ?lx2))\<rparr>"
      by (simp add: getTok.simps [of lx0] Let_def split_beta)
    with ok2 show ?thesis by (simp add: number_loop_ok)
  next
    case rec
    then have eq: "getTok lx0 = getTok (comment_loop ?lx2)"
      by (simp add: getTok.simps [of lx0] Let_def)
    from rec ok2 have "buffer_ok (snd (getTok (comment_loop ?lx2)))"
      by (intro "1.IH" [OF refl refl]) (simp_all add: comment_loop_ok)
    then show ?thesis by (simp add: eq)
  next
    case eof
    then have "getTok lx0 = (tok_eof, ?lx3)"
      by (cases "last_char ?lx2 = 35") (simp_all add: getTok.simps [of lx0] Let_def)
    with ok3 show ?thesis by simp
  next
    case other
    then have "snd (getTok lx0) = read_char ?lx3"
      by (cases "last_char ?lx2 = 35") (simp_all add: getTok.simps [of lx0] Let_def)
    with ok3 show ?thesis by (simp add: buffer_ok_read_char)
  qed
qed

lemma getNextToken_ok: "buffer_ok lx \<Longrightarrow> buffer_ok (snd (getNextToken lx))"
  using getTok_ok [of lx] by (simp add: getNextToken_def split_beta)

lemma lex_n_ok: "buffer_ok lx \<Longrightarrow> buffer_ok (lex_n n lx)"
  by (induction n arbitrary: lx) (simp_all add: getNextToken_ok)

lemma reachable_buffer_ok: "buffer_ok (lex_n n (new_LexerBuffer mem filename))"
  by (simp add: lex_n_ok buffer_ok_new)

subsection \<open>A comment that runs to the end of the text\<close>

lemma blank_final_comment:
  "blank pre \<Longrightarrow> CHR 0x0A \<notin> set body \<Longrightarrow> CHR 0x0D \<notin> set body \<Longrightarrow>
   blank (pre @ CHR ''#'' # body)"
proof (induction pre rule: blank.induct)
  case 1
  then have "dropWhile (\<lambda>d. d \<noteq> CHR 0x0A \<and> d \<noteq> CHR 0x0D) body = []"
    by auto
  then show ?case by (simp add: whitespace_def del: dropWhile_eq_Nil_conv)
next
  case (2 c cs)
  let ?p = "\<lambda>d. d \<noteq> CHR 0x0A \<and> d \<noteq> CHR 0x0D"
  show ?case
  proof (cases "whitespace c")
    case True
    with 2 show ?thesis by simp
  next
    case False
    with "2.prems"(1) have hash: "c = CHR ''#''" and b: "blank (dropWhile ?p cs)"
      by (simp_all split: if_splits)
    show ?thesis
    proof (cases "\<forall>d\<in>set cs. ?p d")
      case True
      then have "dropWhile ?p (cs @ CHR ''#'' # body) = dropWhile ?p (CHR ''#'' # body)"
        by (simp add: dropWhile_append2)
      also from "2.prems"(2,3) have "\<dots> = []" by auto
      finally show ?thesis using False hash by (simp del: dropWhile_eq_Nil_conv)
    next
      case nl: False
      then obtain d where "d \<in> set cs" "\<not> ?p d" by blast
      then have "dropWhile ?p (cs @ CHR ''#'' # body) = dropWhile ?p cs @ CHR ''#'' # body"
        by (rule dropWhile_append1)
      moreover from "2.IH"(2) [OF False hash b "2.prems"(2,3)]
      have "blank (dropWhile ?p cs @ CHR ''#'' # body)" .
      ultimately show ?thesis using False hash by simp
    qed
  qed
qed

subsection \<open>What a number token holds\<close>

text \<open>A number of the lexical grammar is \<open>[0-9.]+\<close>.\<close>

definition number_char :: "char \<Rightarrow> bool" where
  "number_char c \<longleftrightarrow> in_range CHR ''0'' CHR ''9'' c \<or> c = CHR ''.''"

lemma number_char_isdigit: "number_char c \<longleftrightarrow> isdigit (of_char c) \<or> c = CHR ''.''"
  by (simp add: number_char_def in_range_def isdigit_def of_char_int_nat)

lemma getTok_number:
  "isdigit (last_char lx) \<or> last_char lx = 46 \<Longrightarrow>
   getTok lx =
     (tok_number,
      (snd (number_loop [] (save_location lx)))
        \<lparr>numVal := Strtod (fst (number_loop [] (save_location lx)))\<rparr>)"
  by (auto simp: getTok.simps [of lx] skip_whitespace_nospace isspace_def isalpha_def
        isdigit_def Let_def split_beta)

text \<open>
  The number loop hands to \<open>strtod\<close> the decimal character codes of the characters
  it reads, one after the other.
\<close>

lemma number_loop_unread:
  "buffer_ok lx \<Longrightarrow> last_char lx = of_char c \<Longrightarrow> unread lx = s @ r \<Longrightarrow>
   \<forall>d\<in>set s. isdigit (of_char d) \<or> d = CHR ''.'' \<Longrightarrow>
   r = [] \<or> \<not> (isdigit (of_char (hd r)) \<or> hd r = CHR ''.'') \<Longrightarrow>
   fst (number_loop acc lx) = acc @ concat (map (\<lambda>d. to_string (of_char d)) (c # s))"
proof (induction s arbitrary: lx c acc)
  case Nil
  show ?case
  proof (cases r)
    case Nil
    with Nil.prems have "read_char lx = lx\<lparr>last_char := EOF\<rparr>"
      by (simp add: read_char_end)
    then have "number_loop acc lx = (acc @ to_string (last_char lx), read_char lx)"
      by (simp add: number_loop_stop isdigit_def)
    with Nil.prems(2) show ?thesis by simp
  next
    case (Cons c1 cs)
    with Nil.prems have u: "unread lx = c1 # cs" by simp
    note step = read_char_step [OF Nil.prems(1) u]
    from Nil.prems(5) Cons step(1)
    have "number_loop acc lx = (acc @ to_string (last_char lx), read_char lx)"
      by (simp add: number_loop_stop)
    with Nil.prems(2) show ?thesis by simp
  qed
next
  case (Cons d s)
  from Cons.prems have u: "unread lx = d # (s @ r)" by simp
  note step = read_char_step [OF Cons.prems(1) u]
  from Cons.prems(4) step(1)
  have "number_loop acc lx = number_loop (acc @ to_string (last_char lx)) (read_char lx)"
    by (subst number_loop_go) auto
  moreover have "fst (number_loop (acc @ to_string (last_char lx)) (read_char lx))
      = (acc @ to_string (last_char lx)) @ concat (map (\<lambda>d. to_string (of_char d)) (d # s))"
    using Cons.prems step(1,2,3) by (intro Cons.IH) simp_all
  ultimately show ?case using Cons.prems(2) by simp
qed

lemma number_token_value:
  assumes "buffer_ok lx"
    and "last_char lx = of_char c0"
    and "c0 # unread lx = ws @ s @ r"
    and "\<forall>w\<in>set ws. isspace (of_char w)"
    and "s \<noteq> []" and "list_all number_char s"
    and "r = [] \<or> \<not> number_char (hd r)"
  shows "fst (getNextToken lx) = tok_number
       \<and> getValue (snd (getNextToken lx))
           = Inr (Strtod (concat (map (\<lambda>d. to_string (of_char d)) s)))"
proof -
  from assms(5) obtain a s' where s: "s = a # s'" by (cases s) auto
  from assms(3) have "c0 # unread lx = ws @ a # (s' @ r)" by (simp add: s)
  from getTok_skip [OF assms(1,2) this assms(4)]
  obtain lx' where eq: "getTok lx = getTok lx'" and ok: "buffer_ok lx'"
    and l: "last_char lx' = of_char a" and u: "unread lx' = s' @ r"
    by blast
  from assms(6) s have a: "isdigit (of_char a) \<or> a = CHR ''.''"
    and s': "\<forall>d\<in>set s'. isdigit (of_char d) \<or> d = CHR ''.''"
    by (simp_all add: list_all_iff number_char_isdigit)
  have "fst (number_loop [] (save_location lx'))
      = [] @ concat (map (\<lambda>d. to_string (of_char d)) (a # s'))"
  proof (rule number_loop_unread)
    show "buffer_ok (save_location lx')" using ok by simp
    show "last_char (save_location lx') = of_char a" using l by simp
    show "unread (save_location lx') = s' @ r" using u by simp
    show "\<forall>d\<in>set s'. isdigit (of_char d) \<or> d = CHR ''.''" by (rule s')
    show "r = [] \<or> \<not> (isdigit (of_char (hd r)) \<or> hd r = CHR ''.'')"
      using assms(7) by (simp add: number_char_isdigit)
  qed
  moreover from a l have "isdigit (last_char lx') \<or> last_char lx' = 46" by auto
  ultimately show ?thesis
    by (simp add: getNextToken_def getValue_def eq getTok_number s)
qed

section \<open>Properties\<close>

subsection \<open>A freshly constructed lexer\<close>

text \<open>
  C8. Before the first call of \<open>getNextToken\<close>, \<open>getCurToken\<close> returns \<open>tok_eof\<close>,
  the line and column counters are \<open>0\<close>, and the location is \<open>(filename, 0, 0)\<close>.
\<close>

theorem fresh_lexer_state:
  "getCurToken (new_LexerBuffer mem filename) = tok_eof
   \<and> getLine (new_LexerBuffer mem filename) = 0
   \<and> getCol (new_LexerBuffer mem filename) = 0
   \<and> getLastLocation (new_LexerBuffer mem filename) = \<lparr> file' = filename, line = 0, col = 0 \<rparr>"
  by (simp add: new_LexerBuffer_def getCurToken_def getLine_def getCol_def getLastLocation_def)

subsection \<open>Numbers\<close>

text \<open>
  C1. On the input \<open>3.14\<close> the first token is \<open>tok_number\<close>, but the string given to
  \<open>strtod\<close> is not \<open>3.14\<close>: \<open>std::to_string\<close> has appended the decimal code of each
  character (51, 46, 49, 52), so the value is that of \<open>51464952\<close>. The identifier
  branch appends \<open>(char) last_char\<close>; the number branch does not.
\<close>

theorem number_3_14_value:
  "(let (t, lx) = getNextToken (new_LexerBuffer (''3.14'' @ [CHR 0x00]) filename)
    in t = tok_number \<and> getValue lx = Inr (Strtod ''51464952''))"
  by code_simp

subsection \<open>Locations\<close>

text \<open>
  C3, as stated: on the input \<open>def\<newline>foo\<close> the token \<open>foo\<close> is on line 2 and the
  token \<open>def\<close> in column 0. The second half fails: the location is saved when the
  first character of the token has been read into \<open>last_char\<close> and counted.
\<close>

theorem def_foo_location_counterexample:
  "\<not> (let lx0 = new_LexerBuffer (''def\<newline>foo'' @ [CHR 0x00]) ''test.toy'';
          (t1, lx1) = getNextToken lx0;
          (t2, lx2) = getNextToken lx1
      in line (getLastLocation lx2) = 2 \<and> col (getLastLocation lx1) = 0)"
  by code_simp

text \<open>
  C3, amended: on the input \<open>def\<newline>foo\<close> the first token is \<open>tok_def\<close>, at line 1
  and column 1, and the second is the identifier \<open>foo\<close>, at line 2 and column 1.
\<close>

theorem def_foo_location:
  "(let lx0 = new_LexerBuffer (''def\<newline>foo'' @ [CHR 0x00]) filename;
        (t1, lx1) = getNextToken lx0;
        (t2, lx2) = getNextToken lx1
    in t1 = tok_def \<and> line (getLastLocation lx1) = 1 \<and> col (getLastLocation lx1) = 1
     \<and> t2 = tok_identifier \<and> getId lx2 = Inr ''foo''
     \<and> line (getLastLocation lx2) = 2 \<and> col (getLastLocation lx2) = 1)"
  by code_simp

subsection \<open>Line and column counters\<close>

text \<open>
  C7, as stated: the column counter never decreases from one \<open>getNextChar\<close> to the
  next. It does, whenever a newline is read: after \<open>a\<close> of the input \<open>a\<newline>\<close> the
  column is 1, and reading the newline sets it to 0.
\<close>

theorem column_monotone_counterexample:
  "(let lx = snd (getNextChar (snd (getNextChar
               (new_LexerBuffer (''a\<newline>'' @ [CHR 0x00]) ''test.toy''))))
    in \<not> getCol lx \<le> getCol (snd (getNextChar lx)))"
  by code_simp

text \<open>
  C7, amended: across a call of \<open>getNextChar\<close> the line counter never decreases. At
  the end of the input (an empty line buffer) the call returns \<open>EOF\<close> and changes
  nothing. Otherwise it consumes the first character of the line buffer: when this is
  a newline the line counter is incremented and the column counter is set to zero;
  when it is any other character the column counter is incremented and the line
  counter is unchanged. (So the column counter decreases only when a newline is read.)
\<close>

theorem getNextChar_counters:
  "getLine lx \<le> getLine (snd (getNextChar lx))
   \<and> (curLineBuffer lx = [] \<longrightarrow> getNextChar lx = (EOF, lx))
   \<and> (curLineBuffer lx \<noteq> [] \<and> hd (curLineBuffer lx) = CHR 0x0A \<longrightarrow>
        getLine (snd (getNextChar lx)) = getLine lx + 1 \<and> getCol (snd (getNextChar lx)) = 0)
   \<and> (curLineBuffer lx \<noteq> [] \<and> hd (curLineBuffer lx) \<noteq> CHR 0x0A \<longrightarrow>
        getLine (snd (getNextChar lx)) = getLine lx
        \<and> getCol (snd (getNextChar lx)) = getCol lx + 1)"
proof (cases "curLineBuffer lx")
  case Nil
  then show ?thesis by (simp add: getNextChar_Nil)
next
  case (Cons d b)
  with getNextChar_Cons [OF Cons] show ?thesis
    by (simp add: getLine_def getCol_def)
qed

theorem getNextChar_counters_witness:
  "(let lx = snd (getNextChar (snd (getNextChar
               (new_LexerBuffer (''a\<newline>'' @ [CHR 0x00]) ''test.toy''))))
    in curLineBuffer lx \<noteq> [] \<and> hd (curLineBuffer lx) = CHR 0x0A
       \<and> getLine lx = 1 \<and> getCol lx = 1
       \<and> getLine (snd (getNextChar lx)) = 2
       \<and> getCol (snd (getNextChar lx)) = 0)"
proof -
  define lx where "lx = snd (getNextChar (snd (getNextChar
               (new_LexerBuffer (''a\<newline>'' @ [CHR 0x00]) ''test.toy''))))"
  have h: "curLineBuffer lx \<noteq> [] \<and> hd (curLineBuffer lx) = CHR 0x0A"
    unfolding lx_def by code_simp
  have v: "getLine lx = 1 \<and> getCol lx = 1"
    unfolding lx_def by code_simp
  from getNextChar_counters [of lx] h v show ?thesis
    by (simp add: lx_def Let_def)
qed

subsection \<open>\<open>consume\<close>\<close>

text \<open>
  C2, as stated: \<open>consume\<close> called with a token that is not the current one returns
  (an error value) to its caller with the lexer unchanged. It does not return: the
  assertion fails. A fresh lexer has the current token \<open>tok_eof\<close>.
\<close>

theorem consume_mismatch_counterexample:
  "tok_def \<noteq> getCurToken (new_LexerBuffer (''def'' @ [CHR 0x00]) ''test.toy'')
   \<and> consume tok_def (new_LexerBuffer (''def'' @ [CHR 0x00]) ''test.toy'')
       = Inl (Assertion_failed ''consume Token mismatch expectation'')
   \<and> consume tok_def (new_LexerBuffer (''def'' @ [CHR 0x00]) ''test.toy'')
       \<noteq> Inr (new_LexerBuffer (''def'' @ [CHR 0x00]) ''test.toy'')"
  by (simp add: consume_def getCurToken_def new_LexerBuffer_def)

text \<open>
  C2, amended: with assertions compiled in, \<open>consume\<close> called with a token that is
  not the current one fails its assertion, which ends the process before
  \<open>getNextToken\<close> is called: no error value is returned. Called with the current
  token it advances as \<open>getNextToken\<close> does.
\<close>

theorem consume_outcome:
  "(tok \<noteq> getCurToken lx \<longrightarrow>
      consume tok lx = Inl (Assertion_failed ''consume Token mismatch expectation''))
   \<and> (tok = getCurToken lx \<longrightarrow> consume tok lx = Inr (snd (getNextToken lx)))"
  by (simp add: consume_def getCurToken_def)

theorem consume_outcome_witness:
  "tok_def \<noteq> getCurToken (new_LexerBuffer (''def'' @ [CHR 0x00]) ''test.toy'')
   \<and> consume tok_def (new_LexerBuffer (''def'' @ [CHR 0x00]) ''test.toy'')
       = Inl (Assertion_failed ''consume Token mismatch expectation'')
   \<and> tok_eof = getCurToken (new_LexerBuffer (''def'' @ [CHR 0x00]) ''test.toy'')
   \<and> consume tok_eof (new_LexerBuffer (''def'' @ [CHR 0x00]) ''test.toy'')
       = Inr (snd (getNextToken (new_LexerBuffer (''def'' @ [CHR 0x00]) ''test.toy'')))"
  using consume_outcome [of tok_def "new_LexerBuffer (''def'' @ [CHR 0x00]) ''test.toy''"]
    consume_outcome [of tok_eof "new_LexerBuffer (''def'' @ [CHR 0x00]) ''test.toy''"]
  by (simp add: getCurToken_def new_LexerBuffer_def)


subsection \<open>The end of the input\<close>

text \<open>
  C4. Once \<open>getNextToken\<close> has returned \<open>tok_eof\<close>, each later call returns
  \<open>tok_eof\<close> too, and none of them reads: the line buffer and the memory position
  stay as the first \<open>tok_eof\<close> left them (\<open>readNextLine\<close> is not called). This
  holds from any lexer state.
\<close>

theorem eof_idempotent:
  "fst (getNextToken lx) = tok_eof \<Longrightarrow>
   fst (getNextToken (lex_n n (snd (getNextToken lx)))) = tok_eof
   \<and> curLineBuffer (lex_n n (snd (getNextToken lx))) = curLineBuffer (snd (getNextToken lx))
   \<and> current (lex_n n (snd (getNextToken lx))) = current (snd (getNextToken lx))"
proof -
  assume "fst (getNextToken lx) = tok_eof"
  then have "last_char (snd (getNextToken lx)) = EOF"
    by (rule getNextToken_eof_last_char)
  from lex_n_EOF [OF this, of n] show ?thesis
    by (simp add: getNextToken_EOF)
qed

theorem eof_idempotent_witness:
  "(let lx = lex_n 1 (new_LexerBuffer (''x'' @ [CHR 0x00]) ''test.toy'')
    in fst (getNextToken lx) = tok_eof
       \<and> fst (getNextToken (lex_n 2 (snd (getNextToken lx)))) = tok_eof
       \<and> curLineBuffer (lex_n 2 (snd (getNextToken lx))) = curLineBuffer (snd (getNextToken lx))
       \<and> current (lex_n 2 (snd (getNextToken lx))) = current (snd (getNextToken lx)))"
proof -
  define lx where "lx = lex_n 1 (new_LexerBuffer (''x'' @ [CHR 0x00]) ''test.toy'')"
  have h: "fst (getNextToken lx) = tok_eof"
    unfolding lx_def by code_simp
  from eof_idempotent [OF h, of 2] h show ?thesis
    by (simp add: lx_def Let_def)
qed

subsection \<open>Identifiers and keywords\<close>

text \<open>
  C5. Let the lexer be in a state whose buffer invariant holds and where the
  lookahead character followed by the unread text is whitespace \<open>ws\<close>, then a string
  \<open>s\<close> of the shape \<open>[A-Za-z][A-Za-z0-9_]*\<close>, then a rest \<open>r\<close> that does not continue
  the identifier. Then \<open>getNextToken\<close> returns the keyword token when \<open>s\<close> is exactly
  \<open>return\<close>, \<open>def\<close> or \<open>var\<close>, and otherwise \<open>tok_identifier\<close>, with \<open>getId\<close>
  returning \<open>s\<close>.
\<close>

theorem identifier_or_keyword:
  assumes "buffer_ok lx"
    and "last_char lx = of_char c0"
    and "c0 # unread lx = ws @ s @ r"
    and "\<forall>w\<in>set ws. isspace (of_char w)"
    and "identifier_shaped s"
    and "r = [] \<or> \<not> identifier_char (hd r)"
  shows "(s = ''return'' \<longrightarrow> fst (getNextToken lx) = tok_return)
       \<and> (s = ''def'' \<longrightarrow> fst (getNextToken lx) = tok_def)
       \<and> (s = ''var'' \<longrightarrow> fst (getNextToken lx) = tok_var)
       \<and> (s \<noteq> ''return'' \<and> s \<noteq> ''def'' \<and> s \<noteq> ''var'' \<longrightarrow>
            fst (getNextToken lx) = tok_identifier \<and> getId (snd (getNextToken lx)) = Inr s)"
proof -
  from assms(5) obtain a s' where s: "s = a # s'" and a: "identifier_start a"
    and s': "list_all identifier_char s'"
    by (auto simp: identifier_shaped_def split: list.splits)
  from assms(3) have "c0 # unread lx = ws @ a # (s' @ r)" by (simp add: s)
  from getTok_skip [OF assms(1,2) this assms(4)]
  obtain lx' where eq: "getTok lx = getTok lx'" and ok: "buffer_ok lx'"
    and l: "last_char lx' = of_char a" and u: "unread lx' = s' @ r"
    by blast
  let ?lx2 = "(save_location lx')\<lparr>identifierStr := [char_of (last_char lx')]\<rparr>"
  have "identifierStr (identifier_loop ?lx2) = identifierStr ?lx2 @ s'"
  proof (rule identifier_loop_unread)
    show "buffer_ok ?lx2" using ok by simp
    show "unread ?lx2 = s' @ r" using u by simp
    show "\<forall>c\<in>set s'. isalnum (of_char c) \<or> c = CHR ''_''"
      using s' by (simp add: list_all_iff identifier_char_isalnum)
    show "r = [] \<or> \<not> (isalnum (of_char (hd r)) \<or> hd r = CHR ''_'')"
      using assms(6) by (simp add: identifier_char_isalnum)
  qed
  then have i: "identifierStr (identifier_loop ?lx2) = s"
    by (simp add: l s)
  from a l have "isalpha (last_char lx')"
    by (simp add: identifier_start_isalpha)
  from getTok_alpha [OF this] i eq
  have "getTok lx =
      (if s = ''return'' then tok_return else if s = ''def'' then tok_def
       else if s = ''var'' then tok_var else tok_identifier, identifier_loop ?lx2)"
    by (simp add: Let_def)
  with i show ?thesis
    by (simp add: getNextToken_def getId_def)
qed

theorem identifier_or_keyword_witness:
  "(let lx = new_LexerBuffer (''foo(x)'' @ [CHR 0x00]) ''test.toy''
    in buffer_ok lx \<and> last_char lx = of_char CHR '' ''
       \<and> CHR '' '' # unread lx = [CHR '' '', CHR 0x0A] @ ''foo'' @ ''(x)''
       \<and> list_all (\<lambda>w. isspace (of_char w)) [CHR '' '', CHR 0x0A]
       \<and> identifier_shaped ''foo'' \<and> \<not> identifier_char (hd ''(x)'')
       \<and> fst (getNextToken lx) = tok_identifier
       \<and> getId (snd (getNextToken lx)) = Inr ''foo'')
   \<and> (let lx = new_LexerBuffer (''def f'' @ [CHR 0x00]) ''test.toy''
    in buffer_ok lx \<and> last_char lx = of_char CHR '' ''
       \<and> CHR '' '' # unread lx = [CHR '' '', CHR 0x0A] @ ''def'' @ '' f''
       \<and> identifier_shaped ''def'' \<and> \<not> identifier_char (hd '' f'')
       \<and> fst (getNextToken lx) = tok_def)"
proof -
  define lx where "lx = new_LexerBuffer (''foo(x)'' @ [CHR 0x00]) ''test.toy''"
  define lx' where "lx' = new_LexerBuffer (''def f'' @ [CHR 0x00]) ''test.toy''"
  have h1: "buffer_ok lx" and k1: "buffer_ok lx'"
    unfolding lx_def lx'_def by (rule buffer_ok_new)+
  have h2: "last_char lx = of_char CHR '' ''" and k2: "last_char lx' = of_char CHR '' ''"
    unfolding lx_def lx'_def by code_simp+
  have h3: "CHR '' '' # unread lx = [CHR '' '', CHR 0x0A] @ ''foo'' @ ''(x)''"
    unfolding lx_def by code_simp
  have k3: "CHR '' '' # unread lx' = [CHR '' '', CHR 0x0A] @ ''def'' @ '' f''"
    unfolding lx'_def by code_simp
  have h4: "list_all (\<lambda>w. isspace (of_char w)) [CHR '' '', CHR 0x0A]" by code_simp
  then have h4': "\<forall>w\<in>set [CHR '' '', CHR 0x0A]. isspace (of_char w)"
    by (simp only: list_all_iff)
  have h5: "identifier_shaped ''foo''" and k5: "identifier_shaped ''def''" by code_simp+
  have h6: "\<not> identifier_char (hd ''(x)'')" and k6: "\<not> identifier_char (hd '' f'')"
    by code_simp+
  from h6 have h6': "''(x)'' = [] \<or> \<not> identifier_char (hd ''(x)'')" by (rule disjI2)
  from k6 have k6': "'' f'' = [] \<or> \<not> identifier_char (hd '' f'')" by (rule disjI2)
  from identifier_or_keyword [OF h1 h2 h3 h4' h5 h6']
    identifier_or_keyword [OF k1 k2 k3 h4' k5 k6']
    h1 h2 h3 h4 h5 h6 k1 k2 k3 k5 k6
  show ?thesis by (simp add: lx_def lx'_def Let_def)
qed

subsection \<open>Blank input and comments\<close>

text \<open>
  C6. When the text of the buffer consists of whitespace and line comments only,
  every call of \<open>getNextToken\<close> returns \<open>tok_eof\<close>; the input
  \<open># comment only\<newline>\<close> is such a text.
\<close>

theorem blank_input_only_eof:
  "blank (text_of mem) \<Longrightarrow>
   fst (getNextToken (lex_n n (new_LexerBuffer mem filename))) = tok_eof"
proof -
  assume b: "blank (text_of mem)"
  let ?lx = "new_LexerBuffer mem filename"
  have "last_char ?lx = of_char CHR '' ''"
    by (simp add: new_LexerBuffer_def)
  moreover from b have "blank (CHR '' '' # unread ?lx)"
    by (simp add: unread_new whitespace_def)
  ultimately have "fst (getTok ?lx) = tok_eof"
    using buffer_ok_new by (intro getTok_blank)
  then have first: "fst (getNextToken ?lx) = tok_eof"
    by (simp add: getNextToken_def split_beta)
  show ?thesis
  proof (cases n)
    case 0
    with first show ?thesis by simp
  next
    case (Suc k)
    from first have "last_char (snd (getNextToken ?lx)) = EOF"
      by (rule getNextToken_eof_last_char)
    from lex_n_EOF [OF this, of k] Suc show ?thesis
      by (simp add: getNextToken_EOF)
  qed
qed

theorem blank_input_only_eof_witness:
  "blank (text_of (''# comment only\<newline>'' @ [CHR 0x00]))
   \<and> fst (getNextToken (lex_n 0 (new_LexerBuffer (''# comment only\<newline>'' @ [CHR 0x00]) ''test.toy'')))
       = tok_eof
   \<and> fst (getNextToken (lex_n 3 (new_LexerBuffer (''# comment only\<newline>'' @ [CHR 0x00]) ''test.toy'')))
       = tok_eof"
proof -
  have h: "blank (text_of (''# comment only\<newline>'' @ [CHR 0x00]))"
    by code_simp
  from blank_input_only_eof [OF h, of 0 "''test.toy''"]
    blank_input_only_eof [OF h, of 3 "''test.toy''"] h
  show ?thesis by simp
qed

text \<open>
  C9. Let the lookahead character followed by the unread text be a blank text (it may
  be empty), then a comment that runs to the end of the text: a \<open>#\<close> with no
  newline or carriage return after it. Then this call of \<open>getNextToken\<close>, which
  reads the comment, returns \<open>tok_eof\<close> itself.
\<close>

theorem unterminated_comment_eof:
  assumes "buffer_ok lx"
    and "last_char lx = of_char c0"
    and "c0 # unread lx = pre @ CHR ''#'' # body"
    and "blank pre"
    and "CHR 0x0A \<notin> set body" and "CHR 0x0D \<notin> set body"
  shows "fst (getNextToken lx) = tok_eof"
proof -
  from assms(4-6) have "blank (pre @ CHR ''#'' # body)"
    by (rule blank_final_comment)
  with assms(3) have "blank (c0 # unread lx)" by simp
  with assms(1,2) have "fst (getTok lx) = tok_eof"
    by (rule getTok_blank)
  then show ?thesis
    by (simp add: getNextToken_def split_beta)
qed

theorem unterminated_comment_eof_witness:
  "(let lx = lex_n 1 (new_LexerBuffer (''x # c'' @ [CHR 0x00]) ''test.toy'')
    in buffer_ok lx \<and> last_char lx = of_char CHR '' ''
       \<and> CHR '' '' # unread lx = [CHR '' ''] @ CHR ''#'' # '' c''
       \<and> blank [CHR '' '']
       \<and> CHR 0x0A \<notin> set '' c'' \<and> CHR 0x0D \<notin> set '' c''
       \<and> getCurToken lx = tok_identifier
       \<and> fst (getNextToken lx) = tok_eof)"
proof -
  define lx where "lx = lex_n 1 (new_LexerBuffer (''x # c'' @ [CHR 0x00]) ''test.toy'')"
  have h1: "buffer_ok lx" unfolding lx_def by (rule reachable_buffer_ok)
  have h2: "last_char lx = of_char CHR '' ''" unfolding lx_def by code_simp
  have h3: "CHR '' '' # unread lx = [CHR '' ''] @ CHR ''#'' # '' c''"
    unfolding lx_def by code_simp
  have h4: "blank [CHR '' '']" by code_simp
  have h5: "CHR 0x0A \<notin> set '' c''" and h6: "CHR 0x0D \<notin> set '' c''" by simp_all
  have h7: "getCurToken lx = tok_identifier" unfolding lx_def by code_simp
  from unterminated_comment_eof [OF h1 h2 h3 h4 h5 h6] h1 h2 h3 h4 h5 h6 h7
  show ?thesis by (simp add: lx_def Let_def)
qed

subsection \<open>Line numbers of tokens\<close>

text \<open>
  C10. The location of every token returned by a lexer that started fresh has a line
  number of at least 1 (for \<open>tok_eof\<close> as for the other tokens): the first call
  reads the newline of the initial line buffer before it saves a location, and the
  line counter never decreases.
\<close>

theorem token_line_at_least_1:
  "1 \<le> line (getLastLocation (snd (getNextToken (lex_n n (new_LexerBuffer mem filename)))))"
proof -
  let ?lx = "new_LexerBuffer mem filename"
  have "isspace (last_char ?lx)"
    by (simp add: new_LexerBuffer_def isspace_def)
  then have eq: "getTok ?lx = getTok (read_char ?lx)"
    by (rule getTok_space)
  have "curLineBuffer ?lx = [CHR 0x0A]"
    by (simp add: new_LexerBuffer_def)
  then have one: "curLineNum (read_char ?lx) = 1"
    by (simp add: read_char_Cons new_LexerBuffer_def)
  from getTok_keeps [of "read_char ?lx"] eq one
  have first: "1 \<le> line (lastLocation (snd (getNextToken ?lx)))"
    "1 \<le> curLineNum (snd (getNextToken ?lx))"
    by (simp_all add: getNextToken_def split_beta)
  show ?thesis
  proof (cases n)
    case 0
    with first(1) show ?thesis by (simp add: getLastLocation_def)
  next
    case (Suc k)
    from first(2) have "1 \<le> curLineNum (lex_n k (snd (getNextToken ?lx)))"
      by (rule lex_n_line)
    with getNextToken_keeps [of "lex_n k (snd (getNextToken ?lx))"] Suc
    show ?thesis by (simp add: getLastLocation_def)
  qed
qed


end
